theory Spec2Isabelle
  imports Main "HOL-Library.Word"
begin

unbundle bit_operations_syntax

section \<open>The SMBIOS structure-table decoder (smbios\_tables.cpp)\<close>

text \<open>
  The buffer handed to \<^verbatim>\<open>genSMBIOSTables(tables, length, results)\<close> is a list of
  bytes; \<^verbatim>\<open>length\<close> is the length of that list and \<^verbatim>\<open>tables_end\<close> is
  \<^verbatim>\<open>tables + length\<close>.  Every pointer into the buffer (\<^verbatim>\<open>table\<close>,
  \<^verbatim>\<open>next_table\<close>) is kept as its offset from \<^verbatim>\<open>tables\<close>, a natural number, so
  the comparison \<^verbatim>\<open>p + k <= tables_end\<close> reads \<open>p + k \<le> length tables\<close>.

  Forming \<^verbatim>\<open>table + header->length\<close> for the comparison with \<^verbatim>\<open>tables_end\<close> reads
  nothing; it is the sum of two natural numbers here.

  A read of a byte that is not inside the buffer is undefined behaviour in C++.  The
  model makes it a value: every read goes through \<open>byte_at\<close> (or \<open>digestMemory\<close>
  for the digested range) and yields \<open>Inl OutOfBounds\<close> when it leaves the buffer.
  The one exception the code can throw, \<^verbatim>\<open>std::out_of_range\<close> from \<^verbatim>\<open>std::map::at\<close>,
  is the value \<open>Inl OutOfRange\<close>.  Either of them ends the call.
\<close>

type_synonym byte = "8 word"

datatype error = OutOfBounds | OutOfRange

definition byte_at :: "byte list \<Rightarrow> nat \<Rightarrow> error + byte" where
  "byte_at tables i = (if i < length tables then Inr (tables ! i) else Inl OutOfBounds)"

subsection \<open>The structure header\<close>

text \<open>
  \<^verbatim>\<open>struct SMBStructHeader { uint8_t type; uint8_t length; uint16_t handle; }\<close>, packed:
  four bytes.  The code overlays the struct on the buffer at \<^verbatim>\<open>table\<close>; the hosts of
  this Darwin table are little-endian, so \<^verbatim>\<open>handle\<close> is byte 2 (low) and byte 3 (high).
  The field names carry the suffix \<open>_hdr\<close> (\<open>length\<close> is the list length in HOL).
\<close>

record SMBStructHeader =
  type_hdr :: byte
  length_hdr :: byte
  handle_hdr :: "16 word"

definition read_header :: "byte list \<Rightarrow> nat \<Rightarrow> error + SMBStructHeader" where
  "read_header tables table =
     (case byte_at tables table of
        Inl e \<Rightarrow> Inl e
      | Inr t \<Rightarrow>
          (case byte_at tables (table + 1) of
             Inl e \<Rightarrow> Inl e
           | Inr l \<Rightarrow>
               (case byte_at tables (table + 2) of
                  Inl e \<Rightarrow> Inl e
                | Inr lo \<Rightarrow>
                    (case byte_at tables (table + 3) of
                       Inl e \<Rightarrow> Inl e
                     | Inr hi \<Rightarrow>
                         Inr \<lparr>type_hdr = t, length_hdr = l,
                              handle_hdr = push_bit 8 (ucast hi) OR ucast lo\<rparr>))))"

subsection \<open>The type registry\<close>

definition kSMBIOSTypeDescriptions :: "(int \<times> string) list" where
  "kSMBIOSTypeDescriptions =
    [(0, ''BIOS Information''),
     (1, ''System Information''),
     (2, ''Base Board or Module Information''),
     (3, ''System Enclosure or Chassis''),
     (4, ''Processor Information''),
     (5, ''Memory Controller Information''),
     (6, ''Memory Module Information''),
     (7, ''Cache Information''),
     (8, ''Port Connector Information''),
     (9, ''System Slots''),
     (10, ''On Board Devices Information''),
     (11, ''OEM Strings''),
     (12, ''System Configuration Options''),
     (13, ''BIOS Language Information''),
     (14, ''Group Associations''),
     (15, ''System Event Log''),
     (16, ''Physical Memory Array''),
     (17, ''Memory Device''),
     (18, ''32-bit Memory Error Information''),
     (19, ''Memory Array Mapped Address''),
     (20, ''Memory Device Mapped Address''),
     (21, ''Built-in Pointing Device''),
     (22, ''Portable Battery''),
     (23, ''System Reset''),
     (24, ''Hardware Security''),
     (25, ''System Power Controls''),
     (26, ''Voltage Probe''),
     (27, ''Cooling Device''),
     (28, ''Temperature Probe''),
     (29, ''Electrical Current Probe''),
     (30, ''Out-of-Band Remote Access''),
     (31, ''Boot Integrity Services''),
     (32, ''System Boot Information''),
     (33, ''64-bit Memory Error Information''),
     (34, ''Management Device''),
     (35, ''Management Device Component''),
     (36, ''Management Device Threshold Data''),
     (37, ''Memory Channel''),
     (38, ''IPMI Device Information''),
     (39, ''System Power Supply''),
     (40, ''Additional Information''),
     (41, ''Onboard Devices Extended Info''),
     (126, ''Inactive''),
     (127, ''End-of-Table''),
     (130, ''Memory SPD Data''),
     (131, ''OEM Processor Type''),
     (132, ''OEM Processor Bus Speed'')]"

text \<open>
  \<^verbatim>\<open>kSMBIOSTypeDescriptions.count(k)\<close> of the \<^verbatim>\<open>std::map\<close>: the number of entries
  with key \<open>k\<close>, 0 or 1.  \<^verbatim>\<open>kSMBIOSTypeDescriptions.at(k)\<close>: the text stored under
  \<open>k\<close>; for a key that is absent it throws \<^verbatim>\<open>std::out_of_range\<close>.
\<close>

definition count_descriptions :: "int \<Rightarrow> nat" where
  "count_descriptions k = (case map_of kSMBIOSTypeDescriptions k of None \<Rightarrow> 0 | Some _ \<Rightarrow> 1)"

definition at_descriptions :: "int \<Rightarrow> error + string" where
  "at_descriptions k =
     (case map_of kSMBIOSTypeDescriptions k of None \<Rightarrow> Inl OutOfRange | Some d \<Rightarrow> Inr d)"

text \<open>
  Lines 100 to 102: the \<^verbatim>\<open>description\<close> column is set, from \<^verbatim>\<open>.at\<close>, only when
  \<^verbatim>\<open>.count\<close> of the type is positive; otherwise the row has no such column
  (\<open>None\<close>).
\<close>

definition description_for :: "byte \<Rightarrow> error + string option" where
  "description_for t =
     (if count_descriptions (uint t) > 0 then
        (case at_descriptions (uint t) of
           Inl e \<Rightarrow> Inl e
         | Inr d \<Rightarrow> Inr (Some d))
      else Inr None)"

subsection \<open>Rows\<close>

text \<open>
  A \<^verbatim>\<open>Row\<close> maps column names to text.  The decoder sets the seven columns
  \<^verbatim>\<open>number\<close>, \<^verbatim>\<open>type\<close>, \<^verbatim>\<open>description\<close> (only for a registered type),
  \<^verbatim>\<open>handle\<close>, \<^verbatim>\<open>header_size\<close>, \<^verbatim>\<open>size\<close> and \<^verbatim>\<open>md5\<close>; the record has one field
  per column (suffix \<open>_col\<close>), the numbers kept as numbers rather than as the decimal
  text that \<^verbatim>\<open>INTEGER\<close> and \<^verbatim>\<open>BIGINT\<close> render, and an absent
  \<^verbatim>\<open>description\<close> is \<open>None\<close>.  \<^verbatim>\<open>size\<close> is the pointer difference
  \<^verbatim>\<open>next_table - table\<close>, a signed integer.
\<close>

record Row =
  number_col :: nat
  type_col :: int
  description_col :: "string option"
  handle_col :: nat
  header_size_col :: int
  size_col :: int
  md5_col :: string

subsection \<open>The trailing-data scan\<close>

text \<open>
  The \<^verbatim>\<open>for\<close> loop of lines 110 to 115, started at \<^verbatim>\<open>next_table\<close>; its value is
  \<^verbatim>\<open>next_table\<close> when the loop is left.  \<^verbatim>\<open>next_table[1]\<close> is read only when
  \<^verbatim>\<open>next_table[0]\<close> is zero (\<^verbatim>\<open>&&\<close> evaluates left to right).
\<close>

function scan :: "byte list \<Rightarrow> nat \<Rightarrow> error + nat" where
  "scan tables next_table =
     (if next_table + 4 \<le> length tables then
        (case byte_at tables next_table of
           Inl e \<Rightarrow> Inl e
         | Inr b0 \<Rightarrow>
             if b0 = 0 then
               (case byte_at tables (next_table + 1) of
                  Inl e \<Rightarrow> Inl e
                | Inr b1 \<Rightarrow>
                    if b1 = 0 then Inr (next_table + 2)
                    else scan tables (next_table + 1))
             else scan tables (next_table + 1))
      else Inr next_table)"
  by pat_completeness auto
termination
  by (relation "measure (\<lambda>(tables, next_table). length tables - next_table)") auto

declare scan.simps [simp del]

subsection \<open>The digest\<close>

text \<open>
  \<^verbatim>\<open>md5::MD5\<close> (osquery/core/md5.h) is not among the sources at hand: the decoder
  takes the function from a byte sequence to its digest text as a parameter \<open>digest\<close>.
  A fresh \<^verbatim>\<open>MD5\<close> object is built in every iteration, and \<^verbatim>\<open>digestMemory(table, table_length)\<close>
  reads the \<^verbatim>\<open>table_length\<close> bytes from \<^verbatim>\<open>table\<close> on.
\<close>

definition digestMemory :: "(byte list \<Rightarrow> string) \<Rightarrow> byte list \<Rightarrow> nat \<Rightarrow> int \<Rightarrow> error + string" where
  "digestMemory digest tables table table_length =
     (if 0 \<le> table_length \<and> table + nat table_length \<le> length tables
      then Inr (digest (take (nat table_length) (drop table tables)))
      else Inl OutOfBounds)"

subsection \<open>The decoding loop\<close>

text \<open>
  The \<^verbatim>\<open>while\<close> loop of lines 89 to 126.  Its state is the cursor \<^verbatim>\<open>table\<close>, the
  counter \<^verbatim>\<open>index\<close> and the rows pushed so far.  Each row is kept together with the
  value of the cursor at which it was built (its offset, the first component of the
  pair): the offset is not a column of the row, it is recorded so that statements about
  where an entry lies in the buffer can be made.  \<^verbatim>\<open>break\<close> and the failing loop
  test both leave the loop with the rows unchanged.  The steps of one iteration stand
  in the order of the source: header, length check, description, scan, digest, push.
\<close>

function genSMBIOSTables_loop ::
  "(byte list \<Rightarrow> string) \<Rightarrow> byte list \<Rightarrow> nat \<Rightarrow> nat \<Rightarrow> (nat \<times> Row) list
     \<Rightarrow> error + (nat \<times> Row) list" where
  "genSMBIOSTables_loop digest tables table index results =
     (if table + 4 \<le> length tables then
        (case read_header tables table of
           Inl e \<Rightarrow> Inl e
         | Inr header \<Rightarrow>
             if table + unat (length_hdr header) > length tables then Inr results
             else
               (case description_for (type_hdr header) of
                  Inl e \<Rightarrow> Inl e
                | Inr description \<Rightarrow>
                    (case scan tables (table + unat (length_hdr header)) of
                       Inl e \<Rightarrow> Inl e
                     | Inr next_table \<Rightarrow>
                         (let table_length = int next_table - int table in
                          case digestMemory digest tables table table_length of
                            Inl e \<Rightarrow> Inl e
                          | Inr md5_digest \<Rightarrow>
                              genSMBIOSTables_loop digest tables next_table (index + 1)
                                (results @
                                 [(table,
                                   \<lparr>number_col = index,
                                    type_col = uint (type_hdr header),
                                    description_col = description,
                                    handle_col = unat (handle_hdr header),
                                    header_size_col = uint (length_hdr header),
                                    size_col = table_length,
                                    md5_col = md5_digest\<rparr>)])))))
      else Inr results)"
  by pat_completeness auto

termination genSMBIOSTables_loop
proof (relation "measure (\<lambda>(digest, tables, table, index, results). length tables - table)")
  show "wf (measure (\<lambda>(digest, tables, table, index, results). length tables - table))"
    by simp
next
  fix digest :: "byte list \<Rightarrow> string" and tables table index and results :: "(nat \<times> Row) list"
    and header :: SMBStructHeader and description next_table table_length md5_digest
  assume guard: "table + 4 \<le> length tables"
    and "\<not> length tables < table + unat (length_hdr header)"
    and sc: "scan tables (table + unat (length_hdr header)) = Inr next_table"
  have ge: "p \<le> e" if "scan tables p = Inr e" for p e
    using that
  proof (induction tables p rule: scan.induct)
    case (1 tables next_table)
    show ?case
    proof (cases "next_table + 4 \<le> length tables")
      case False
      with "1.prems" show ?thesis by (simp add: scan.simps [of tables next_table])
    next
      case True
      then have b: "byte_at tables next_table = Inr (tables ! next_table)"
        "byte_at tables (next_table + 1) = Inr (tables ! (next_table + 1))"
        by (simp_all add: byte_at_def)
      show ?thesis
      proof (cases "tables ! next_table = 0 \<and> tables ! (next_table + 1) = 0")
        case True
        with \<open>next_table + 4 \<le> length tables\<close> b "1.prems" show ?thesis
          by (simp add: scan.simps [of tables next_table])
      next
        case False
        with \<open>next_table + 4 \<le> length tables\<close> b "1.prems"
        have "scan tables (next_table + 1) = Inr e"
          by (auto simp add: scan.simps [of tables next_table] split: if_splits)
        with "1.IH" \<open>next_table + 4 \<le> length tables\<close> b False
        have "next_table + 1 \<le> e" by (cases "tables ! next_table = 0") auto
        then show ?thesis by simp
      qed
    qed
  qed
  have "table < next_table"
  proof (cases "unat (length_hdr header) = 0")
    case True
    with sc guard show ?thesis
      by (subst (asm) scan.simps) (auto simp: byte_at_def split: if_splits dest!: ge)
  next
    case False
    with ge [OF sc] show ?thesis by simp
  qed
  with guard
  show "((digest, tables, next_table, index + 1, results @
           [(table,
             \<lparr>number_col = index, type_col = uint (type_hdr header),
              description_col = description,
              handle_col = unat (handle_hdr header),
              header_size_col = uint (length_hdr header),
              size_col = table_length, md5_col = md5_digest\<rparr>)]),
          digest, tables, table, index, results)
        \<in> measure (\<lambda>(digest, tables, table, index, results). length tables - table)"
    by simp
qed

declare genSMBIOSTables_loop.simps [simp del]

text \<open>
  \<^verbatim>\<open>genSMBIOSTables(tables, length, results)\<close>: the loop from the start of the buffer
  with \<^verbatim>\<open>index = 0\<close>.  \<open>genSMBIOSTables_entries\<close> is what one call emits, each row
  with its offset; \<open>genSMBIOSTables\<close> is the caller's \<^verbatim>\<open>results\<close> after the call,
  the rows pushed behind whatever it held before.
\<close>

definition genSMBIOSTables_entries ::
  "(byte list \<Rightarrow> string) \<Rightarrow> byte list \<Rightarrow> error + (nat \<times> Row) list" where
  "genSMBIOSTables_entries digest tables = genSMBIOSTables_loop digest tables 0 0 []"

definition genSMBIOSTables ::
  "(byte list \<Rightarrow> string) \<Rightarrow> byte list \<Rightarrow> Row list \<Rightarrow> error + Row list" where
  "genSMBIOSTables digest tables results =
     (case genSMBIOSTables_entries digest tables of
        Inl e \<Rightarrow> Inl e
      | Inr entries \<Rightarrow> Inr (results @ map snd entries))"

subsection \<open>The call as it addresses memory\<close>

text \<open>
  The same function once more, with the buffer where it lies.  Memory is a function from
  addresses to bytes, \<^verbatim>\<open>tables\<close> is an address, \<^verbatim>\<open>tables_end\<close> is
  \<^verbatim>\<open>tables + length\<close>, and a read yields whatever the memory holds at the address,
  inside the buffer or not: nothing is checked.  \<^verbatim>\<open>results\<close> is the caller's vector,
  and each row is pushed onto it as it is built.  \<open>scan_mem\<close> is the \<^verbatim>\<open>for\<close> loop
  of lines 110 to 115, \<open>header_mem\<close> the struct overlaid at \<^verbatim>\<open>table\<close>, and
  \<open>genSMBIOSTables_mem_loop\<close> the \<^verbatim>\<open>while\<close> loop of lines 89 to 126.
\<close>

type_synonym memory = "nat \<Rightarrow> byte"

function scan_mem :: "memory \<Rightarrow> nat \<Rightarrow> nat \<Rightarrow> nat" where
  "scan_mem mem tables_end next_table =
     (if next_table + 4 \<le> tables_end then
        (if mem next_table = 0 \<and> mem (next_table + 1) = 0 then next_table + 2
         else scan_mem mem tables_end (next_table + 1))
      else next_table)"
  by pat_completeness auto
termination
  by (relation "measure (\<lambda>(mem, tables_end, next_table). tables_end - next_table)") auto

declare scan_mem.simps [simp del]

definition header_mem :: "memory \<Rightarrow> nat \<Rightarrow> SMBStructHeader" where
  "header_mem mem table =
     \<lparr>type_hdr = mem table, length_hdr = mem (table + 1),
      handle_hdr = push_bit 8 (ucast (mem (table + 3))) OR ucast (mem (table + 2))\<rparr>"

text \<open>
  The class \<^verbatim>\<open>md5::MD5\<close> is taken by two parameters: \<open>MD5\<close>, the object that its
  default constructor builds, and \<open>MD5_digestMemory\<close>, its method
  \<^verbatim>\<open>digestMemory\<close>, which from the state of the object and the bytes handed to it
  gives the digest text and the state of the object afterwards.  Line 120 builds the
  object inside the loop, so every iteration works on a fresh one and drops it.  The
  method reads the \<^verbatim>\<open>table_length\<close> bytes from address \<^verbatim>\<open>table\<close> on; a negative
  \<^verbatim>\<open>table_length\<close> is no count of bytes and is the failure \<open>OutOfBounds\<close>.
\<close>

definition digestMemory_mem ::
  "('ctx \<Rightarrow> byte list \<Rightarrow> string \<times> 'ctx) \<Rightarrow> 'ctx \<Rightarrow> memory \<Rightarrow> nat \<Rightarrow> int \<Rightarrow> error + string" where
  "digestMemory_mem MD5_digestMemory digest mem table table_length =
     (if 0 \<le> table_length
      then Inr (fst (MD5_digestMemory digest (map mem [table ..< table + nat table_length])))
      else Inl OutOfBounds)"

function genSMBIOSTables_mem_loop ::
  "'ctx \<Rightarrow> ('ctx \<Rightarrow> byte list \<Rightarrow> string \<times> 'ctx) \<Rightarrow> memory \<Rightarrow> nat \<Rightarrow> nat \<Rightarrow> nat \<Rightarrow> Row list
     \<Rightarrow> error + Row list" where
  "genSMBIOSTables_mem_loop MD5 MD5_digestMemory mem tables_end table index results =
     (if table + 4 \<le> tables_end then
        (let header = header_mem mem table in
         if table + unat (length_hdr header) > tables_end then Inr results
         else
           (case description_for (type_hdr header) of
              Inl e \<Rightarrow> Inl e
            | Inr description \<Rightarrow>
                (let next_table = scan_mem mem tables_end (table + unat (length_hdr header));
                     table_length = int next_table - int table;
                     digest = MD5
                 in case digestMemory_mem MD5_digestMemory digest mem table table_length of
                      Inl e \<Rightarrow> Inl e
                    | Inr md5_digest \<Rightarrow>
                        genSMBIOSTables_mem_loop MD5 MD5_digestMemory mem tables_end next_table
                          (index + 1)
                          (results @
                           [\<lparr>number_col = index,
                             type_col = uint (type_hdr header),
                             description_col = description,
                             handle_col = unat (handle_hdr header),
                             header_size_col = uint (length_hdr header),
                             size_col = table_length,
                             md5_col = md5_digest\<rparr>]))))
      else Inr results)"
  by pat_completeness auto
termination
proof -
  have ge: "p \<le> scan_mem mem e p" for mem :: memory and e p
  proof (induction mem e p rule: scan_mem.induct)
    case (1 mem tables_end next_table)
    show ?case
    proof (cases "next_table + 4 \<le> tables_end \<and>
        \<not> (mem next_table = 0 \<and> mem (next_table + 1) = 0)")
      case True
      with "1.IH" have "next_table + 1 \<le> scan_mem mem tables_end (next_table + 1)" by blast
      with True show ?thesis by (subst scan_mem.simps) auto
    next
      case False
      then show ?thesis by (subst scan_mem.simps) auto
    qed
  qed
  have lt: "table < scan_mem mem e (table + k)" if "table + 4 \<le> e"
    for mem :: memory and e table k
  proof (cases "k = 0")
    case True
    from ge [of "table + 1" mem e] that True show ?thesis
      by (subst scan_mem.simps) auto
  next
    case False
    with ge [of "table + k" mem e] show ?thesis by simp
  qed
  show ?thesis
    by (relation "measure (\<lambda>(MD5, MD5_digestMemory, mem, tables_end, table, index, results).
          tables_end - table)")
      (auto simp: lt intro!: diff_less_mono2)
qed

declare genSMBIOSTables_mem_loop.simps [simp del]

definition genSMBIOSTables_mem ::
  "'ctx \<Rightarrow> ('ctx \<Rightarrow> byte list \<Rightarrow> string \<times> 'ctx) \<Rightarrow> memory \<Rightarrow> nat \<Rightarrow> nat \<Rightarrow> Row list
     \<Rightarrow> error + Row list" where
  "genSMBIOSTables_mem MD5 MD5_digestMemory mem tables length' results =
     genSMBIOSTables_mem_loop MD5 MD5_digestMemory mem (tables + length') tables 0 results"

text \<open>
  The \<open>length'\<close> bytes that a memory holds from address \<open>tables\<close> on, and the digest
  function that a freshly built object gives.
\<close>

definition bytes_at :: "memory \<Rightarrow> nat \<Rightarrow> nat \<Rightarrow> byte list" where
  "bytes_at mem tables length' = map (\<lambda>i. mem (tables + i)) [0 ..< length']"

definition fresh_digest :: "'ctx \<Rightarrow> ('ctx \<Rightarrow> byte list \<Rightarrow> string \<times> 'ctx) \<Rightarrow> byte list \<Rightarrow> string" where
  "fresh_digest MD5 MD5_digestMemory bytes = fst (MD5_digestMemory MD5 bytes)"

subsection \<open>Notions used in the statements and proofs\<close>

text \<open>
  The row that one iteration builds at cursor \<open>table\<close> when its scan ends at
  \<open>next_table\<close>, written with the bytes of the buffer (the loop above builds the same
  row from the header it read, see \<open>genSMBIOSTables_loop_step\<close>).
\<close>

definition row_at :: "(byte list \<Rightarrow> string) \<Rightarrow> byte list \<Rightarrow> nat \<Rightarrow> nat \<Rightarrow> nat \<Rightarrow> Row" where
  "row_at digest tables table index next_table =
     \<lparr>number_col = index,
      type_col = uint (tables ! table),
      description_col = map_of kSMBIOSTypeDescriptions (uint (tables ! table)),
      handle_col =
        unat (push_bit 8 (ucast (tables ! (table + 3))) OR ucast (tables ! (table + 2)) :: 16 word),
      header_size_col = uint (tables ! (table + 1)),
      size_col = int next_table - int table,
      md5_col = digest (take (next_table - table) (drop table tables))\<rparr>"

text \<open>
  Entries lie one behind the other: each starts where the one before it ends.
  \<open>ends_at es table\<close>: the entries pushed so far start at offset 0 and the last of them
  ends at the cursor.
\<close>

definition contiguous :: "(nat \<times> Row) list \<Rightarrow> bool" where
  "contiguous es \<longleftrightarrow>
     (\<forall>i. Suc i < length es \<longrightarrow>
        int (fst (es ! Suc i)) = int (fst (es ! i)) + size_col (snd (es ! i)))"

definition ends_at :: "(nat \<times> Row) list \<Rightarrow> nat \<Rightarrow> bool" where
  "ends_at es table \<longleftrightarrow>
     (if es = [] then table = 0
      else fst (hd es) = 0 \<and> int table = int (fst (last es)) + size_col (snd (last es)))"

text \<open>
  A stand-in for the digest, used only where a closed example needs some function for
  the parameter \<open>digest\<close>: one character per byte, \<open>0\<close> for a zero byte and \<open>1\<close>
  for any other.
\<close>

definition sample_digest :: "byte list \<Rightarrow> string" where
  "sample_digest bytes = map (\<lambda>b. if b = 0 then CHR ''0'' else CHR ''1'') bytes"

text \<open>
  For closed examples over memory: the memory that holds \<open>bytes\<close> from address
  \<open>tables\<close> on and \<open>fill\<close> everywhere else, and the stand-in digest as a method of an
  object without state.
\<close>

definition place :: "nat \<Rightarrow> byte list \<Rightarrow> byte \<Rightarrow> memory" where
  "place tables bytes fill =
     (\<lambda>a. if tables \<le> a \<and> a < tables + length bytes then bytes ! (a - tables) else fill)"

definition sample_digestMemory :: "unit \<Rightarrow> byte list \<Rightarrow> string \<times> unit" where
  "sample_digestMemory digest bytes = (sample_digest bytes, digest)"

section \<open>The scan and one iteration of the loop\<close>

lemma scan_unfold:
  "scan tables p =
     (if p + 4 \<le> length tables then
        (if tables ! p = 0 \<and> tables ! (p + 1) = 0 then Inr (p + 2) else scan tables (p + 1))
      else Inr p)"
  by (subst scan.simps) (simp add: byte_at_def)

lemma scan_total:
  "\<exists>e. scan tables p = Inr e \<and> p \<le> e \<and> (p \<le> length tables \<longrightarrow> e \<le> length tables)"
proof (induction tables p rule: scan.induct)
  case (1 tables next_table)
  show ?case
  proof (cases "next_table + 4 \<le> length tables")
    case False
    then show ?thesis by (subst scan_unfold) simp
  next
    case True
    show ?thesis
    proof (cases "tables ! next_table = 0 \<and> tables ! (next_table + 1) = 0")
      case z: True
      with True show ?thesis by (subst scan_unfold) simp
    next
      case nz: False
      with True "1.IH"
      obtain e where e: "scan tables (next_table + 1) = Inr e" "next_table + 1 \<le> e"
        "e \<le> length tables"
        by (cases "tables ! next_table = 0") (auto simp: byte_at_def)
      from True nz e show ?thesis by (subst scan_unfold) auto
    qed
  qed
qed

lemma scan_gt: "p + 4 \<le> length tables \<Longrightarrow> scan tables p = Inr e \<Longrightarrow> p < e"
  using scan_total [of tables "p + 1"]
  by (subst (asm) scan_unfold) (auto split: if_splits)



lemma read_header_in_range:
  "table + 4 \<le> length tables \<Longrightarrow>
   read_header tables table =
     Inr \<lparr>type_hdr = tables ! table, length_hdr = tables ! (table + 1),
          handle_hdr = push_bit 8 (ucast (tables ! (table + 3))) OR ucast (tables ! (table + 2))\<rparr>"
  by (simp add: read_header_def byte_at_def)

lemma description_for_eq:
  "description_for t = Inr (map_of kSMBIOSTypeDescriptions (uint t))"
  by (simp add: description_for_def count_descriptions_def at_descriptions_def
      split: option.splits)

lemma registry_facts:
  "(map_of kSMBIOSTypeDescriptions k \<noteq> None) = (k \<in> fst ` set kSMBIOSTypeDescriptions)"
  "(map_of kSMBIOSTypeDescriptions k \<noteq> None) = (0 < count_descriptions k)"
  "map_of kSMBIOSTypeDescriptions k = Some d \<Longrightarrow> at_descriptions k = Inr d"
proof -
  show "(map_of kSMBIOSTypeDescriptions k \<noteq> None) = (k \<in> fst ` set kSMBIOSTypeDescriptions)"
    by (simp only: map_of_eq_None_iff not_not)
  show "(map_of kSMBIOSTypeDescriptions k \<noteq> None) = (0 < count_descriptions k)"
    by (cases "map_of kSMBIOSTypeDescriptions k") (simp_all add: count_descriptions_def)
  show "map_of kSMBIOSTypeDescriptions k = Some d \<Longrightarrow> at_descriptions k = Inr d"
    by (simp add: at_descriptions_def)
qed

lemma genSMBIOSTables_loop_short:
  "\<not> table + 4 \<le> length tables \<Longrightarrow> genSMBIOSTables_loop digest tables table index results = Inr results"
  by (subst genSMBIOSTables_loop.simps) simp

lemma genSMBIOSTables_loop_malformed:
  "table + 4 \<le> length tables \<Longrightarrow> length tables < table + unat (tables ! (table + 1)) \<Longrightarrow>
   genSMBIOSTables_loop digest tables table index results = Inr results"
  by (subst genSMBIOSTables_loop.simps) (simp add: read_header_in_range)

lemma genSMBIOSTables_loop_step:
  assumes "table + 4 \<le> length tables"
    and "table + unat (tables ! (table + 1)) \<le> length tables"
    and "scan tables (table + unat (tables ! (table + 1))) = Inr next_table"
  shows "genSMBIOSTables_loop digest tables table index results =
         genSMBIOSTables_loop digest tables next_table (index + 1)
           (results @ [(table, row_at digest tables table index next_table)])"
proof -
  from scan_total [of tables "table + unat (tables ! (table + 1))"] assms
  have n: "table \<le> next_table" "next_table \<le> length tables" by auto
  then have d: "digestMemory digest tables table (int next_table - int table) =
      Inr (digest (take (next_table - table) (drop table tables)))"
    by (simp add: digestMemory_def nat_diff_distrib')
  from assms d show ?thesis
    by (subst genSMBIOSTables_loop.simps)
      (simp add: read_header_in_range row_at_def description_for_eq)
qed


lemma genSMBIOSTables_loop_induct [consumes 0, case_names stop step]:
  assumes stop: "\<And>table index results.
      genSMBIOSTables_loop digest tables table index results = Inr results \<Longrightarrow>
      \<not> table + 4 \<le> length tables \<or> length tables < table + unat (tables ! (table + 1)) \<Longrightarrow>
      P table index results"
    and step: "\<And>table index results next_table.
      table + 4 \<le> length tables \<Longrightarrow>
      table + unat (tables ! (table + 1)) \<le> length tables \<Longrightarrow>
      scan tables (table + unat (tables ! (table + 1))) = Inr next_table \<Longrightarrow>
      table < next_table \<Longrightarrow>
      table + unat (tables ! (table + 1)) \<le> next_table \<Longrightarrow>
      next_table \<le> length tables \<Longrightarrow>
      genSMBIOSTables_loop digest tables table index results =
        genSMBIOSTables_loop digest tables next_table (index + 1)
          (results @ [(table, row_at digest tables table index next_table)]) \<Longrightarrow>
      P next_table (index + 1) (results @ [(table, row_at digest tables table index next_table)]) \<Longrightarrow>
      P table index results"
  shows "P table index results"
proof (induction "length tables - table" arbitrary: table index results rule: less_induct)
  case less
  show ?case
  proof (cases "table + 4 \<le> length tables \<and> table + unat (tables ! (table + 1)) \<le> length tables")
    case False
    then consider "\<not> table + 4 \<le> length tables"
      | "table + 4 \<le> length tables" "length tables < table + unat (tables ! (table + 1))"
      by linarith
    then show ?thesis
    proof cases
      case 1
      then show ?thesis by (intro stop genSMBIOSTables_loop_short disjI1)
    next
      case 2
      then show ?thesis by (intro stop genSMBIOSTables_loop_malformed disjI2)
    qed
  next
    case True
    from scan_total [of tables "table + unat (tables ! (table + 1))"] True
    obtain next_table where n: "scan tables (table + unat (tables ! (table + 1))) = Inr next_table"
      "table + unat (tables ! (table + 1)) \<le> next_table" "next_table \<le> length tables"
      by auto
    have lt: "table < next_table"
    proof (cases "unat (tables ! (table + 1)) = 0")
      case z: True
      with n(1) True show ?thesis by (auto intro: scan_gt [of table tables])
    next
      case False
      with n(2) show ?thesis by simp
    qed
    from True n lt show ?thesis
      by (intro step [of table next_table] less.hyps) (auto simp: genSMBIOSTables_loop_step)
  qed
qed

section \<open>Invariants of the loop\<close>

lemma loop_returns:
  "\<exists>new. genSMBIOSTables_loop digest tables table index results = Inr (results @ new)"
proof (induction table index results rule: genSMBIOSTables_loop_induct [where digest = digest and tables = tables])
  case (stop table index results)
  then show ?case by simp
next
  case (step table index results next_table)
  then show ?case by auto
qed

lemma loop_all:
  assumes emit: "\<And>table index next_table.
      table + 4 \<le> length tables \<Longrightarrow>
      table + unat (tables ! (table + 1)) \<le> length tables \<Longrightarrow>
      scan tables (table + unat (tables ! (table + 1))) = Inr next_table \<Longrightarrow>
      table < next_table \<Longrightarrow>
      table + unat (tables ! (table + 1)) \<le> next_table \<Longrightarrow>
      next_table \<le> length tables \<Longrightarrow>
      Q (table, row_at digest tables table index next_table)"
  shows "genSMBIOSTables_loop digest tables table index results = Inr out \<Longrightarrow>
         (\<forall>x\<in>set results. Q x) \<Longrightarrow> (\<forall>x\<in>set out. Q x)"
proof (induction table index results rule: genSMBIOSTables_loop_induct [where digest = digest and tables = tables])
  case (stop table index results)
  then show ?case by simp
next
  case (step table index results next_table)
  from step.prems step.hyps(7) have
    "genSMBIOSTables_loop digest tables next_table (index + 1)
       (results @ [(table, row_at digest tables table index next_table)]) = Inr out"
    by simp
  moreover have "\<forall>x\<in>set (results @ [(table, row_at digest tables table index next_table)]). Q x"
    using step.prems(2) emit [OF step.hyps(1-6)] by simp
  ultimately show ?case by (rule step.IH)
qed

lemma entries_all:
  assumes emit: "\<And>table index next_table.
      table + 4 \<le> length tables \<Longrightarrow>
      table + unat (tables ! (table + 1)) \<le> length tables \<Longrightarrow>
      scan tables (table + unat (tables ! (table + 1))) = Inr next_table \<Longrightarrow>
      table < next_table \<Longrightarrow>
      table + unat (tables ! (table + 1)) \<le> next_table \<Longrightarrow>
      next_table \<le> length tables \<Longrightarrow>
      Q (table, row_at digest tables table index next_table)"
  shows "\<exists>out. genSMBIOSTables_entries digest tables = Inr out \<and> (\<forall>x\<in>set out. Q x)"
proof -
  from loop_returns [of digest tables 0 0 "[]"]
  obtain out where out: "genSMBIOSTables_loop digest tables 0 0 [] = Inr out" by auto
  from loop_all [of tables Q digest, OF emit out] have "\<forall>x\<in>set out. Q x" by simp
  with out show ?thesis by (auto simp: genSMBIOSTables_entries_def)
qed

lemma contiguous_snoc:
  assumes "contiguous es" "ends_at es table"
  shows "contiguous (es @ [(table, r)])"
  unfolding contiguous_def
proof (intro allI impI)
  fix i assume i: "Suc i < length (es @ [(table, r)])"
  show "int (fst ((es @ [(table, r)]) ! Suc i)) =
        int (fst ((es @ [(table, r)]) ! i)) + size_col (snd ((es @ [(table, r)]) ! i))"
  proof (cases "Suc i < length es")
    case True
    with assms(1) show ?thesis by (simp add: contiguous_def nth_append)
  next
    case False
    with i have l: "Suc i = length es" by simp
    then have "es \<noteq> []" by auto
    with l have "es ! i = last es" by (metis diff_Suc_1 last_conv_nth)
    with l assms(2) \<open>es \<noteq> []\<close> show ?thesis
      by (simp add: ends_at_def nth_append)
  qed
qed

lemma ends_at_snoc:
  assumes "ends_at es table" "table \<le> next_table" "size_col r = int next_table - int table"
  shows "ends_at (es @ [(table, r)]) next_table"
  using assms by (cases "es = []") (simp_all add: ends_at_def)

lemma loop_contiguous:
  "genSMBIOSTables_loop digest tables table index results = Inr out \<Longrightarrow>
   contiguous results \<Longrightarrow> ends_at results table \<Longrightarrow>
   contiguous out \<and> (out \<noteq> [] \<longrightarrow> fst (hd out) = 0)"
proof (induction table index results rule: genSMBIOSTables_loop_induct [where digest = digest and tables = tables])
  case (stop table index results)
  then show ?case by (simp add: ends_at_def)
next
  case (step table index results next_table)
  let ?r = "row_at digest tables table index next_table"
  have "size_col ?r = int next_table - int table" by (simp add: row_at_def)
  with step.prems step.hyps show ?case
    by (intro step.IH contiguous_snoc ends_at_snoc) simp_all
qed

lemma loop_count:
  "genSMBIOSTables_loop digest tables table index results = Inr out \<Longrightarrow>
   length out + table \<le> length results + max table (length tables)"
proof (induction table index results rule: genSMBIOSTables_loop_induct [where digest = digest and tables = tables])
  case (stop table index results)
  then show ?case by simp
next
  case (step table index results next_table)
  from step.prems step.hyps(7) have
    "genSMBIOSTables_loop digest tables next_table (index + 1)
       (results @ [(table, row_at digest tables table index next_table)]) = Inr out"
    by simp
  from step.IH [OF this] step.hyps(1-6) show ?case by simp
qed

section \<open>The call over memory computes the decode of the bytes of the buffer\<close>

text \<open>
  Every address the call over memory reads lies in the buffer, so it computes what the
  decoder over the list of the buffer's bytes computes, pushed onto the caller's rows.
\<close>

lemma length_bytes_at: "length (bytes_at mem tables n) = n"
  by (simp add: bytes_at_def)

lemma nth_bytes_at: "i < n \<Longrightarrow> bytes_at mem tables n ! i = mem (tables + i)"
  by (simp add: bytes_at_def)

lemma slice_bytes_at:
  assumes "off \<le> next" "next \<le> n"
  shows "map mem [tables + off ..< tables + next] = take (next - off) (drop off (bytes_at mem tables n))"
proof (rule nth_equalityI)
  show "length (map mem [tables + off ..< tables + next]) =
        length (take (next - off) (drop off (bytes_at mem tables n)))"
    using assms by (simp add: length_bytes_at)
next
  fix i assume "i < length (map mem [tables + off ..< tables + next])"
  then have i: "i < next - off" by simp
  with assms have "off + i < n" by simp
  with i show "map mem [tables + off ..< tables + next] ! i =
      take (next - off) (drop off (bytes_at mem tables n)) ! i"
    using assms by (simp add: length_bytes_at nth_bytes_at add.assoc)
qed

lemma scan_mem_refines:
  "scan (bytes_at mem tables n) p = Inr e \<Longrightarrow> scan_mem mem (tables + n) (tables + p) = tables + e"
proof (induction "n - p" arbitrary: p rule: less_induct)
  case less
  let ?B = "bytes_at mem tables n"
  show ?case
  proof (cases "p + 4 \<le> n")
    case False
    with less.prems show ?thesis
      by (subst scan_mem.simps, subst (asm) scan_unfold) (simp add: length_bytes_at)
  next
    case True
    then have b: "?B ! p = mem (tables + p)" "?B ! (p + 1) = mem (tables + p + 1)"
      by (simp_all add: nth_bytes_at add.assoc)
    show ?thesis
    proof (cases "mem (tables + p) = 0 \<and> mem (tables + p + 1) = 0")
      case z: True
      with True b less.prems show ?thesis
        by (subst scan_mem.simps, subst (asm) scan_unfold) (simp add: length_bytes_at)
    next
      case nz: False
      with True b less.prems have "scan ?B (p + 1) = Inr e"
        by (subst (asm) scan_unfold) (auto simp: length_bytes_at split: if_splits)
      with True have "scan_mem mem (tables + n) (tables + (p + 1)) = tables + e"
        by (intro less.hyps) simp_all
      with True nz show ?thesis
        by (subst scan_mem.simps) (auto simp: add.assoc)
    qed
  qed
qed

lemma mem_loop_refines:
  "genSMBIOSTables_mem_loop MD5 MD5_digestMemory mem (tables + n) (tables + off) index
     (rs @ map snd acc) =
   (case genSMBIOSTables_loop (\<lambda>bytes. fst (MD5_digestMemory MD5 bytes))
           (bytes_at mem tables n) off index acc of
      Inl e \<Rightarrow> Inl e
    | Inr out \<Rightarrow> Inr (rs @ map snd out))"
proof -
  define B where "B = bytes_at mem tables n"
  define digest where "digest = (\<lambda>bytes. fst (MD5_digestMemory MD5 bytes))"
  have "genSMBIOSTables_mem_loop MD5 MD5_digestMemory mem (tables + n) (tables + off) index
           (rs @ map snd acc) =
         (case genSMBIOSTables_loop digest B off index acc of
            Inl e \<Rightarrow> Inl e
          | Inr out \<Rightarrow> Inr (rs @ map snd out))"
proof (induction off index acc rule: genSMBIOSTables_loop_induct [where digest = digest and tables = B])
  case (stop off index acc)
  have len: "length B = n" by (simp add: B_def length_bytes_at)
  from stop(2) consider "\<not> off + 4 \<le> n" | "off + 4 \<le> n" "n < off + unat (B ! (off + 1))"
    using len by auto
  then have "genSMBIOSTables_mem_loop MD5 MD5_digestMemory mem (tables + n) (tables + off) index
           (rs @ map snd acc) = Inr (rs @ map snd acc)"
  proof cases
    case 1
    then show ?thesis by (subst genSMBIOSTables_mem_loop.simps) simp
  next
    case 2
    then have "B ! (off + 1) = mem (tables + off + 1)"
      by (simp add: B_def nth_bytes_at add.assoc)
    with 2 show ?thesis
      by (subst genSMBIOSTables_mem_loop.simps) (simp add: header_mem_def Let_def)
  qed
  with stop(1) show ?case by simp
next
  case (step off index acc next_table)
  have len: "length B = n" by (simp add: B_def length_bytes_at)
  from step.hyps(1) len have b:
    "B ! off = mem (tables + off)" "B ! (off + 1) = mem (tables + off + 1)"
    "B ! (off + 2) = mem (tables + off + 2)" "B ! (off + 3) = mem (tables + off + 3)"
    by (simp_all add: B_def nth_bytes_at add.assoc)
  from step.hyps(3) have sc:
    "scan_mem mem (tables + n) (tables + (off + unat (B ! (off + 1)))) = tables + next_table"
    unfolding B_def by (rule scan_mem_refines)
  from step.hyps(4,6) len have sl:
    "map mem [tables + off ..< tables + next_table] = take (next_table - off) (drop off B)"
    unfolding B_def by (intro slice_bytes_at) simp_all
  have d: "digestMemory_mem MD5_digestMemory MD5 mem (tables + off)
      (int (tables + next_table) - int (tables + off)) =
      Inr (digest (take (next_table - off) (drop off B)))"
  proof -
    from step.hyps(4) have nonneg: "0 \<le> int (tables + next_table) - int (tables + off)"
      by linarith
    from step.hyps(4)
    have "tables + off + nat (int (tables + next_table) - int (tables + off)) =
        tables + next_table"
      by linarith
    then have r: "[tables + off ..<
          tables + off + nat (int (tables + next_table) - int (tables + off))] =
        [tables + off ..< tables + next_table]"
      by (simp only:)
    show ?thesis
      unfolding digestMemory_mem_def digest_def by (simp only: nonneg r sl if_True)
  qed
  have "genSMBIOSTables_mem_loop MD5 MD5_digestMemory mem (tables + n) (tables + off) index
           (rs @ map snd acc) =
        genSMBIOSTables_mem_loop MD5 MD5_digestMemory mem (tables + n) (tables + next_table)
           (index + 1) (rs @ map snd (acc @ [(off, row_at digest B off index next_table)]))"
    using step.hyps(1,2) len b sc d
    by (subst genSMBIOSTables_mem_loop.simps)
      (simp add: header_mem_def Let_def description_for_eq row_at_def add.assoc)
  with step.IH step.hyps(7) show ?case by simp
qed
  then show ?thesis by (simp only: B_def digest_def)
qed

lemma genSMBIOSTables_mem_refines:
  "genSMBIOSTables_mem MD5 MD5_digestMemory mem tables length' results =
     genSMBIOSTables (fresh_digest MD5 MD5_digestMemory) (bytes_at mem tables length') results"
proof -
  have f: "fresh_digest MD5 MD5_digestMemory = (\<lambda>bytes. fst (MD5_digestMemory MD5 bytes))"
    by (rule ext) (simp add: fresh_digest_def)
  from mem_loop_refines [of MD5 MD5_digestMemory mem tables length' 0 0 results "[]"]
  show ?thesis
    by (simp add: genSMBIOSTables_mem_def genSMBIOSTables_def genSMBIOSTables_entries_def f)
qed

section \<open>Worked examples\<close>

text \<open>
  The defining equations, for running the decoder on a buffer given byte by byte.
\<close>

lemmas eval_simps = genSMBIOSTables_def genSMBIOSTables_entries_def genSMBIOSTables_loop.simps
  scan.simps byte_at_def read_header_def digestMemory_def description_for_def
  count_descriptions_def at_descriptions_def kSMBIOSTypeDescriptions_def

text \<open>
  Three structures with four-byte formatted regions.  The first two are followed by a
  double zero, which the scan consumes (six bytes each).  Behind the third only two
  bytes are left, so its scan does not start and it is four bytes long; the last two
  bytes of the buffer belong to no entry.
\<close>

lemma three_structures:
  "genSMBIOSTables_entries digest [1,4,0,0,0,0, 2,4,0,0,0,0, 127,4,0,0,0,0] =
   Inr [(0, \<lparr>number_col = 0, type_col = 1, description_col = Some ''System Information'',
              handle_col = 0, header_size_col = 4, size_col = 6,
              md5_col = digest [1,4,0,0,0,0]\<rparr>),
        (6, \<lparr>number_col = 1, type_col = 2,
              description_col = Some ''Base Board or Module Information'',
              handle_col = 0, header_size_col = 4, size_col = 6,
              md5_col = digest [2,4,0,0,0,0]\<rparr>),
        (12, \<lparr>number_col = 2, type_col = 127, description_col = Some ''End-of-Table'',
               handle_col = 0, header_size_col = 4, size_col = 4,
               md5_col = digest [127,4,0,0]\<rparr>)]"
  by (simp add: eval_simps)

text \<open>
  A valid structure followed by a header whose declared length (9) runs past the end of
  the buffer: the first structure is emitted, the second is not.
\<close>

lemma valid_then_malformed:
  "genSMBIOSTables_entries digest [1,4,0,0,0,0, 2,9,0,0] =
     Inr [(0, \<lparr>number_col = 0, type_col = 1, description_col = Some ''System Information'',
                handle_col = 0, header_size_col = 4, size_col = 6,
                md5_col = digest [1,4,0,0,0,0]\<rparr>)]"
  by (simp add: eval_simps)

text \<open>
  Five structures of types 0, 4, 17, 200 and 127; type 200 is not in the registry.
\<close>

lemma typed_structures:
  "genSMBIOSTables_entries digest
     [0,4,0,0,0,0, 4,4,0,0,0,0, 17,4,0,0,0,0, 200,4,0,0,0,0, 127,4,0,0] =
   Inr [(0, \<lparr>number_col = 0, type_col = 0, description_col = Some ''BIOS Information'',
              handle_col = 0, header_size_col = 4, size_col = 6,
              md5_col = digest [0,4,0,0,0,0]\<rparr>),
        (6, \<lparr>number_col = 1, type_col = 4, description_col = Some ''Processor Information'',
              handle_col = 0, header_size_col = 4, size_col = 6,
              md5_col = digest [4,4,0,0,0,0]\<rparr>),
        (12, \<lparr>number_col = 2, type_col = 17, description_col = Some ''Memory Device'',
               handle_col = 0, header_size_col = 4, size_col = 6,
               md5_col = digest [17,4,0,0,0,0]\<rparr>),
        (18, \<lparr>number_col = 3, type_col = 200, description_col = None,
               handle_col = 0, header_size_col = 4, size_col = 6,
               md5_col = digest [200,4,0,0,0,0]\<rparr>),
        (24, \<lparr>number_col = 4, type_col = 127, description_col = Some ''End-of-Table'',
               handle_col = 0, header_size_col = 4, size_col = 4,
               md5_col = digest [127,4,0,0]\<rparr>)]"
  by (simp add: eval_simps)

section \<open>The claims\<close>

text \<open>
  Claim C1 (memory safety).  For every buffer, of any length and content, the decoder
  never reads outside it: neither the loop nor the call as a whole ever takes the
  \<open>OutOfBounds\<close> branch of a read, so both return \<open>Inr\<close>.  Every emitted entry lies
  inside the buffer: its offset plus its \<open>size\<close> is at most the length of the buffer.
\<close>

theorem genSMBIOSTables_reads_in_bounds:
  "\<exists>out. genSMBIOSTables_entries digest tables = Inr out \<and>
         genSMBIOSTables digest tables results = Inr (results @ map snd out) \<and>
         (\<forall>(offset, r)\<in>set out. int offset + size_col r \<le> int (length tables))"
proof -
  have "\<exists>out. genSMBIOSTables_entries digest tables = Inr out \<and>
      (\<forall>x\<in>set out. case x of (offset, r) \<Rightarrow> int offset + size_col r \<le> int (length tables))"
    by (rule entries_all) (simp add: row_at_def)
  then show ?thesis by (auto simp: genSMBIOSTables_def)
qed

theorem genSMBIOSTables_reads_in_bounds_witness:
  "\<exists>out. genSMBIOSTables_entries sample_digest
            [1,4,0,0,0,0, 2,4,0,0,0,0, 127,4,0,0,0,0] = Inr out \<and>
         length out = 3 \<and>
         int (fst (out ! 2)) + size_col (snd (out ! 2)) \<le> 18"
  using genSMBIOSTables_reads_in_bounds
    [of sample_digest "[1,4,0,0,0,0, 2,4,0,0,0,0, 127,4,0,0,0,0]" "[]"]
  by (simp add: three_structures)

text \<open>
  Claim C3 (contiguity).  For every buffer, the first emitted entry starts at offset 0
  and each further entry starts where the one before it ends: the offset of entry
  \<open>i + 1\<close> is the offset of entry \<open>i\<close> plus the \<open>size\<close> of entry \<open>i\<close>.  The entries
  tile the consumed prefix of the buffer without gap or overlap.
\<close>

theorem genSMBIOSTables_entries_contiguous:
  "\<exists>out. genSMBIOSTables_entries digest tables = Inr out \<and>
         (out \<noteq> [] \<longrightarrow> fst (hd out) = 0) \<and>
         (\<forall>i. Suc i < length out \<longrightarrow>
            int (fst (out ! Suc i)) = int (fst (out ! i)) + size_col (snd (out ! i)))"
proof -
  from loop_returns [of digest tables 0 0 "[]"]
  obtain out where out: "genSMBIOSTables_loop digest tables 0 0 [] = Inr out" by auto
  have "contiguous out \<and> (out \<noteq> [] \<longrightarrow> fst (hd out) = 0)"
    by (rule loop_contiguous [OF out]) (simp_all add: contiguous_def ends_at_def)
  with out show ?thesis
    by (simp add: genSMBIOSTables_entries_def contiguous_def)
qed

theorem genSMBIOSTables_entries_contiguous_witness:
  "\<exists>out. genSMBIOSTables_entries sample_digest
            [1,4,0,0,0,0, 2,4,0,0,0,0, 127,4,0,0,0,0] = Inr out \<and>
         map fst out = [0, 6, 12] \<and>
         int (fst (out ! 1)) = int (fst (out ! 0)) + size_col (snd (out ! 0)) \<and>
         int (fst (out ! 2)) = int (fst (out ! 1)) + size_col (snd (out ! 1))"
  using genSMBIOSTables_entries_contiguous
    [of sample_digest "[1,4,0,0,0,0, 2,4,0,0,0,0, 127,4,0,0,0,0]"]
  by (simp add: three_structures)

text \<open>
  Claim C2 (malformed-header termination).  When the loop stands at a cursor with at
  least four bytes left and the header read there declares a length that runs past the
  end of the buffer, the loop ends at once and returns exactly the rows pushed so far:
  nothing is emitted for that structure or for anything behind it, and the result is
  \<open>Inr\<close>, not an error.  In particular, when this happens at the very first header the
  call emits no entry and hands the caller's rows back unchanged.
\<close>

theorem malformed_header_stops:
  "(table + 4 \<le> length tables \<and> read_header tables table = Inr header \<and>
    length tables < table + unat (length_hdr header)
      \<longrightarrow> genSMBIOSTables_loop digest tables table index results = Inr results)
   \<and>
   (4 \<le> length tables \<and> read_header tables 0 = Inr header \<and>
    length tables < unat (length_hdr header)
      \<longrightarrow> genSMBIOSTables_entries digest tables = Inr [] \<and>
          genSMBIOSTables digest tables rows = Inr rows)"
proof -
  have stop: "genSMBIOSTables_loop digest tables t i rs = Inr rs"
    if "t + 4 \<le> length tables" "read_header tables t = Inr header"
      "length tables < t + unat (length_hdr header)" for t i rs
    using that by (subst genSMBIOSTables_loop.simps) simp
  show ?thesis
    using stop [of table index results] stop [of 0 0 "[]"]
    by (simp add: genSMBIOSTables_entries_def genSMBIOSTables_def)
qed

theorem malformed_header_stops_witness:
  "genSMBIOSTables_loop sample_digest [1,4,0,0,0,0, 2,9,0,0] 6 1
     [(0, \<lparr>number_col = 0, type_col = 1, description_col = Some ''System Information'',
           handle_col = 0, header_size_col = 4, size_col = 6,
           md5_col = sample_digest [1,4,0,0,0,0]\<rparr>)] =
     Inr [(0, \<lparr>number_col = 0, type_col = 1, description_col = Some ''System Information'',
                handle_col = 0, header_size_col = 4, size_col = 6,
                md5_col = sample_digest [1,4,0,0,0,0]\<rparr>)] \<and>
   genSMBIOSTables_entries sample_digest [1,4,0,0,0,0, 2,9,0,0] =
     Inr [(0, \<lparr>number_col = 0, type_col = 1, description_col = Some ''System Information'',
                handle_col = 0, header_size_col = 4, size_col = 6,
                md5_col = sample_digest [1,4,0,0,0,0]\<rparr>)] \<and>
   genSMBIOSTables_entries sample_digest [1,9,0,0] = Inr [] \<and>
   genSMBIOSTables sample_digest [1,9,0,0] [] = Inr []"
proof -
  have h1: "read_header [1,4,0,0,0,0, 2,9,0,0] 6 =
      Inr \<lparr>type_hdr = 2, length_hdr = 9, handle_hdr = 0\<rparr>"
    by (simp add: read_header_def byte_at_def)
  have h2: "read_header [1,9,0,0] 0 = Inr \<lparr>type_hdr = 1, length_hdr = 9, handle_hdr = 0\<rparr>"
    by (simp add: read_header_def byte_at_def)
  from malformed_header_stops
    [of 6 "[1,4,0,0,0,0, 2,9,0,0]" "\<lparr>type_hdr = 2, length_hdr = 9, handle_hdr = 0\<rparr>"
      sample_digest 1 _ "[]"]
    malformed_header_stops
    [of 0 "[1,9,0,0]" "\<lparr>type_hdr = 1, length_hdr = 9, handle_hdr = 0\<rparr>" sample_digest 0 "[]" "[]"]
  show ?thesis
    by (simp add: h1 h2 valid_then_malformed)
qed

text \<open>
  Claim C4, as the specification states it (\<open>size \<ge> header_size \<ge> 4\<close> for every
  emitted entry), does not hold: the loop checks the declared length only against the
  end of the buffer, never against the width of the header.  The four bytes
  \<open>1, 0, 0, 0\<close> are a header that declares length 0; it is emitted with
  \<open>header_size = 0\<close> and \<open>size = 1\<close>.
\<close>

theorem header_size_below_minimum:
  "genSMBIOSTables_entries sample_digest [1,0,0,0] =
     Inr [(0, \<lparr>number_col = 0, type_col = 1, description_col = Some ''System Information'',
                handle_col = 0, header_size_col = 0, size_col = 1, md5_col = ''1''\<rparr>)]"
  by (simp add: eval_simps sample_digest_def)

text \<open>
  Claim C4, amended.  For every buffer and every emitted entry, \<open>header_size\<close> is the
  length byte of the header as it stands (any value from 0 to 255), \<open>size\<close> is at least
  \<open>header_size\<close>, and \<open>size\<close> is at least 1.
\<close>

theorem size_ge_header_size:
  "\<exists>out. genSMBIOSTables_entries digest tables = Inr out \<and>
         (\<forall>(offset, r)\<in>set out.
            header_size_col r = uint (tables ! (offset + 1)) \<and>
            0 \<le> header_size_col r \<and> header_size_col r \<le> 255 \<and>
            header_size_col r \<le> size_col r \<and> 1 \<le> size_col r)"
proof -
  have b: "uint (w :: byte) \<le> 255" for w
    using uint_bounded [of w] by simp
  have "\<exists>out. genSMBIOSTables_entries digest tables = Inr out \<and>
      (\<forall>x\<in>set out. case x of (offset, r) \<Rightarrow>
            header_size_col r = uint (tables ! (offset + 1)) \<and>
            0 \<le> header_size_col r \<and> header_size_col r \<le> 255 \<and>
            header_size_col r \<le> size_col r \<and> 1 \<le> size_col r)"
  proof (rule entries_all)
    fix table index next_table
    assume "table + unat (tables ! (table + 1)) \<le> next_table" "table < next_table"
    then have "int (table + unat (tables ! (table + 1))) \<le> int next_table"
      "1 \<le> int next_table - int table"
      by linarith+
    then have "uint (tables ! (table + 1)) \<le> int next_table - int table"
      "1 \<le> int next_table - int table"
      by simp_all
    then show "case (table, row_at digest tables table index next_table) of
        (offset, r) \<Rightarrow>
          header_size_col r = uint (tables ! (offset + 1)) \<and>
          0 \<le> header_size_col r \<and> header_size_col r \<le> 255 \<and>
          header_size_col r \<le> size_col r \<and> 1 \<le> size_col r"
      using b [of "tables ! (table + 1)"] by (simp add: row_at_def)
  qed
  then show ?thesis .
qed

theorem size_ge_header_size_witness:
  "\<exists>out. genSMBIOSTables_entries sample_digest [1,0,0,0] = Inr out \<and> length out = 1 \<and>
         header_size_col (snd (out ! 0)) = 0 \<and> size_col (snd (out ! 0)) = 1 \<and>
         header_size_col (snd (out ! 0)) \<le> size_col (snd (out ! 0))"
  using size_ge_header_size [of sample_digest "[1,0,0,0]"]
  by (simp add: eval_simps)

text \<open>
  Claim C5, as the specification states it (the six bytes \<open>127, 4, 0, 0, 0, 0\<close> give one
  entry of \<open>size = 6\<close>), does not hold.  Behind the four-byte header only two bytes are
  left, so the scan, which needs four, examines no pair: the entry has \<open>size = 4\<close> and
  the two zero bytes belong to no entry.
\<close>

theorem end_of_table_size_is_4:
  "genSMBIOSTables sample_digest [127,4,0,0,0,0] [] =
     Inr [\<lparr>number_col = 0, type_col = 127, description_col = Some ''End-of-Table'',
           handle_col = 0, header_size_col = 4, size_col = 4, md5_col = ''1100''\<rparr>]"
  by (simp add: eval_simps sample_digest_def)

text \<open>
  Claim C5, amended.  The six bytes \<open>127, 4, 0, 0, 0, 0\<close> give exactly one entry, with
  \<open>type = 127\<close>, \<open>description = End-of-Table\<close>, \<open>header_size = 4\<close> and \<open>size = 4\<close>;
  its digest is taken over the four header bytes.
\<close>

theorem end_of_table_entry:
  "genSMBIOSTables digest [127,4,0,0,0,0] results =
     Inr (results @
       [\<lparr>number_col = 0, type_col = 127, description_col = Some ''End-of-Table'',
         handle_col = 0, header_size_col = 4, size_col = 4,
         md5_col = digest [127,4,0,0]\<rparr>])"
  by (simp add: eval_simps)



text \<open>
  Claim C8 (determinism).  Two calls whose buffers hold the same bytes, byte for byte,
  append the same rows, digests included, and neither fails.  This holds wherever the
  two buffers lie in memory, whatever the rest of either memory holds, and whatever the
  two result vectors held before the calls.  The rows are those of the decode of the
  bytes of the buffer.  (The digests agree because each is computed by a freshly built
  object from the same bytes; that the method is a function of the object's state and
  of the bytes is how the absent class is taken.)
\<close>

theorem genSMBIOSTables_mem_deterministic:
  assumes "\<forall>i<length'. mem1 (tables1 + i) = mem2 (tables2 + i)"
  shows "\<exists>rows.
      genSMBIOSTables_mem MD5 MD5_digestMemory mem1 tables1 length' results1 =
        Inr (results1 @ rows) \<and>
      genSMBIOSTables_mem MD5 MD5_digestMemory mem2 tables2 length' results2 =
        Inr (results2 @ rows) \<and>
      genSMBIOSTables (fresh_digest MD5 MD5_digestMemory) (bytes_at mem1 tables1 length') [] =
        Inr rows"
proof -
  let ?digest = "fresh_digest MD5 MD5_digestMemory"
  from assms have same: "bytes_at mem2 tables2 length' = bytes_at mem1 tables1 length'"
    by (simp add: bytes_at_def)
  from loop_returns [of ?digest "bytes_at mem1 tables1 length'" 0 0 "[]"]
  obtain out where
    "genSMBIOSTables_entries ?digest (bytes_at mem1 tables1 length') = Inr out"
    by (auto simp: genSMBIOSTables_entries_def)
  then have "genSMBIOSTables ?digest (bytes_at mem1 tables1 length') rs = Inr (rs @ map snd out)"
    for rs
    by (simp add: genSMBIOSTables_def)
  then show ?thesis
    by (simp add: genSMBIOSTables_mem_refines same)
qed

theorem genSMBIOSTables_mem_deterministic_witness:
  "genSMBIOSTables_mem () sample_digestMemory (place 0 [127,4,0,0,0,0] 0) 0 6 [] =
     Inr [\<lparr>number_col = 0, type_col = 127, description_col = Some ''End-of-Table'',
           handle_col = 0, header_size_col = 4, size_col = 4, md5_col = ''1100''\<rparr>] \<and>
   genSMBIOSTables_mem () sample_digestMemory (place 10 [127,4,0,0,0,0] 255) 10 6
     [\<lparr>number_col = 0, type_col = 127, description_col = Some ''End-of-Table'',
       handle_col = 0, header_size_col = 4, size_col = 4, md5_col = ''1100''\<rparr>] =
     Inr [\<lparr>number_col = 0, type_col = 127, description_col = Some ''End-of-Table'',
           handle_col = 0, header_size_col = 4, size_col = 4, md5_col = ''1100''\<rparr>,
          \<lparr>number_col = 0, type_col = 127, description_col = Some ''End-of-Table'',
           handle_col = 0, header_size_col = 4, size_col = 4, md5_col = ''1100''\<rparr>]"
proof -
  let ?B = "[127,4,0,0,0,0] :: byte list"
  let ?row = "\<lparr>number_col = 0, type_col = 127, description_col = Some ''End-of-Table'',
           handle_col = 0, header_size_col = 4, size_col = 4, md5_col = ''1100''\<rparr>"
  have agree: "\<forall>i<6. place 0 ?B 0 (0 + i) = place 10 ?B 255 (10 + i)"
    by (simp add: place_def)
  have upt6: "[0 ..< 6] = [0, 1, 2, 3, 4, 5 :: nat]"
    by code_simp
  have bytes: "bytes_at (place 0 ?B 0) 0 6 = ?B"
    by (simp add: bytes_at_def place_def upt6)
  have decode: "genSMBIOSTables (fresh_digest () sample_digestMemory) ?B [] = Inr [?row]"
    by (simp add: eval_simps fresh_digest_def sample_digestMemory_def sample_digest_def)
  from genSMBIOSTables_mem_deterministic
    [of 6 "place 0 ?B 0" 0 "place 10 ?B 255" 10 "()" sample_digestMemory "[]" "[?row]", OF agree]
  obtain rows where
    1: "genSMBIOSTables_mem () sample_digestMemory (place 0 ?B 0) 0 6 [] = Inr ([] @ rows)" and
    2: "genSMBIOSTables_mem () sample_digestMemory (place 10 ?B 255) 10 6 [?row] =
          Inr ([?row] @ rows)" and
    3: "genSMBIOSTables (fresh_digest () sample_digestMemory) (bytes_at (place 0 ?B 0) 0 6) [] =
          Inr rows"
    by blast
  from 3 bytes decode have "rows = [?row]" by simp
  with 1 2 show ?thesis by simp
qed

text \<open>
  Claim C7, as the specification states it (every step that emits an entry advances the
  cursor by at least four bytes), does not hold.  In a buffer of six zero bytes the
  header at offset 0 declares length 0; the scan finds the double zero at once and the
  cursor moves to offset 2, where the same happens again.  Two entries are emitted, at
  offsets 0 and 2, each of \<open>size = 2\<close>.
\<close>

theorem cursor_advance_below_4:
  "genSMBIOSTables_entries sample_digest [0,0,0,0,0,0] =
     Inr [(0, \<lparr>number_col = 0, type_col = 0, description_col = Some ''BIOS Information'',
                handle_col = 0, header_size_col = 0, size_col = 2, md5_col = ''00''\<rparr>),
          (2, \<lparr>number_col = 1, type_col = 0, description_col = Some ''BIOS Information'',
                handle_col = 0, header_size_col = 0, size_col = 2, md5_col = ''00''\<rparr>)]"
  by (simp add: eval_simps sample_digest_def)

text \<open>
  Claim C7, amended.  For every buffer the decode terminates (the loop is a total
  function, and its result is \<open>Inr\<close>).  Every step that emits an entry advances the
  cursor by at least one byte, and by at least four when the declared length of the
  header is at least four: every entry has \<open>size \<ge> 1\<close>, and the offsets of the entries
  increase strictly.  The number of entries is at most the length of the buffer.
\<close>

theorem genSMBIOSTables_terminates_advancing:
  "\<exists>out. genSMBIOSTables_entries digest tables = Inr out \<and>
         length out \<le> length tables \<and>
         (\<forall>(offset, r)\<in>set out. 1 \<le> size_col r \<and> (4 \<le> header_size_col r \<longrightarrow> 4 \<le> size_col r)) \<and>
         (\<forall>i. Suc i < length out \<longrightarrow> fst (out ! i) < fst (out ! Suc i))"
proof -
  from loop_returns [of digest tables 0 0 "[]"]
  obtain out where out: "genSMBIOSTables_loop digest tables 0 0 [] = Inr out" by auto
  have count: "length out \<le> length tables"
    using loop_count [OF out] by simp
  have sizes: "\<forall>x\<in>set out. case x of (offset, r) \<Rightarrow>
      1 \<le> size_col r \<and> (4 \<le> header_size_col r \<longrightarrow> 4 \<le> size_col r)"
  proof (rule loop_all [OF _ out])
    fix table index next_table
    assume "table + unat (tables ! (table + 1)) \<le> next_table" "table < next_table"
    then have "int (table + unat (tables ! (table + 1))) \<le> int next_table"
      "1 \<le> int next_table - int table"
      by linarith+
    then have "uint (tables ! (table + 1)) \<le> int next_table - int table"
      "1 \<le> int next_table - int table"
      by simp_all
    then show "case (table, row_at digest tables table index next_table) of
        (offset, r) \<Rightarrow> 1 \<le> size_col r \<and> (4 \<le> header_size_col r \<longrightarrow> 4 \<le> size_col r)"
      by (simp add: row_at_def)
  qed simp
  have "contiguous out"
    using loop_contiguous [OF out] by (simp add: contiguous_def ends_at_def)
  have incr: "fst (out ! i) < fst (out ! Suc i)" if "Suc i < length out" for i
  proof -
    from that have "out ! i \<in> set out" by simp
    with sizes have "1 \<le> size_col (snd (out ! i))" by (auto simp: case_prod_beta)
    moreover from \<open>contiguous out\<close> that
    have "int (fst (out ! Suc i)) = int (fst (out ! i)) + size_col (snd (out ! i))"
      by (simp add: contiguous_def)
    ultimately show ?thesis by linarith
  qed
  from out count sizes incr show ?thesis
    by (auto simp: genSMBIOSTables_entries_def)
qed

theorem genSMBIOSTables_terminates_advancing_witness:
  "\<exists>out. genSMBIOSTables_entries sample_digest [0,0,0,0,0,0] = Inr out \<and>
         length out = 2 \<and> length out \<le> 6 \<and>
         size_col (snd (out ! 0)) = 2 \<and> fst (out ! 0) = 0 \<and> fst (out ! 1) = 2 \<and>
         fst (out ! 0) < fst (out ! 1)"
  using genSMBIOSTables_terminates_advancing [of sample_digest "[0,0,0,0,0,0]"]
  by (simp add: eval_simps)

text \<open>
  Claim C9 (descriptions).  For every buffer the call ends without an exception, and for
  every emitted entry \<open>type\<close> is the first byte of the structure and \<open>description\<close> is
  what the registry holds for that type: it is present exactly when the type is a key of
  the registry, which is exactly when \<^verbatim>\<open>count\<close> of the type is positive, and then it
  is the text that \<^verbatim>\<open>at\<close> returns.  Types 0, 4, 17 and 127 get BIOS Information,
  Processor Information, Memory Device and End-of-Table.  Type 200 gets no description:
  its \<^verbatim>\<open>count\<close> is 0, so \<^verbatim>\<open>at\<close>, which would throw for it, is not called.
\<close>

theorem description_iff_registered:
  "(\<exists>out. genSMBIOSTables_entries digest tables = Inr out \<and>
      (\<forall>(offset, r)\<in>set out.
          type_col r = uint (tables ! offset) \<and>
          description_col r = map_of kSMBIOSTypeDescriptions (type_col r) \<and>
          ((description_col r \<noteq> None) = (type_col r \<in> fst ` set kSMBIOSTypeDescriptions)) \<and>
          ((description_col r \<noteq> None) = (0 < count_descriptions (type_col r))) \<and>
          (\<forall>d. description_col r = Some d \<longrightarrow> at_descriptions (type_col r) = Inr d))) \<and>
   description_for 0 = Inr (Some ''BIOS Information'') \<and>
   description_for 4 = Inr (Some ''Processor Information'') \<and>
   description_for 17 = Inr (Some ''Memory Device'') \<and>
   description_for 127 = Inr (Some ''End-of-Table'') \<and>
   description_for 200 = Inr None \<and>
   count_descriptions 200 = 0 \<and>
   at_descriptions 200 = Inl OutOfRange"
proof -
  have "\<exists>out. genSMBIOSTables_entries digest tables = Inr out \<and>
      (\<forall>x\<in>set out. case x of (offset, r) \<Rightarrow>
          type_col r = uint (tables ! offset) \<and>
          description_col r = map_of kSMBIOSTypeDescriptions (type_col r) \<and>
          ((description_col r \<noteq> None) = (type_col r \<in> fst ` set kSMBIOSTypeDescriptions)) \<and>
          ((description_col r \<noteq> None) = (0 < count_descriptions (type_col r))) \<and>
          (\<forall>d. description_col r = Some d \<longrightarrow> at_descriptions (type_col r) = Inr d))"
  proof (rule entries_all)
    fix table index next_table
    let ?r = "row_at digest tables table index next_table"
    have "type_col ?r = uint (tables ! table)"
      "description_col ?r = map_of kSMBIOSTypeDescriptions (type_col ?r)"
      by (simp_all add: row_at_def)
    then show "case (table, ?r) of (offset, r) \<Rightarrow>
          type_col r = uint (tables ! offset) \<and>
          description_col r = map_of kSMBIOSTypeDescriptions (type_col r) \<and>
          ((description_col r \<noteq> None) = (type_col r \<in> fst ` set kSMBIOSTypeDescriptions)) \<and>
          ((description_col r \<noteq> None) = (0 < count_descriptions (type_col r))) \<and>
          (\<forall>d. description_col r = Some d \<longrightarrow> at_descriptions (type_col r) = Inr d)"
      using registry_facts [of "uint (tables ! table)"]
      by (simp only: prod.case) blast
  qed
  moreover have "description_for 0 = Inr (Some ''BIOS Information'')"
    "description_for 4 = Inr (Some ''Processor Information'')"
    "description_for 17 = Inr (Some ''Memory Device'')"
    "description_for 127 = Inr (Some ''End-of-Table'')"
    "description_for 200 = Inr None"
    "count_descriptions 200 = 0"
    "at_descriptions 200 = Inl OutOfRange"
    by (simp_all add: description_for_def count_descriptions_def at_descriptions_def
        kSMBIOSTypeDescriptions_def)
  ultimately show ?thesis by simp
qed

theorem description_iff_registered_witness:
  "\<exists>out. genSMBIOSTables_entries sample_digest
      [0,4,0,0,0,0, 4,4,0,0,0,0, 17,4,0,0,0,0, 200,4,0,0,0,0, 127,4,0,0] = Inr out \<and>
     map (type_col \<circ> snd) out = [0, 4, 17, 200, 127] \<and>
     map (description_col \<circ> snd) out =
       [Some ''BIOS Information'', Some ''Processor Information'', Some ''Memory Device'',
        None, Some ''End-of-Table''] \<and>
     map (Inr \<circ> description_col \<circ> snd) out =
       [description_for 0, description_for 4, description_for 17, description_for 200,
        description_for 127]"
proof -
  let ?T = "[0,4,0,0,0,0, 4,4,0,0,0,0, 17,4,0,0,0,0, 200,4,0,0,0,0, 127,4,0,0] :: byte list"
  from description_iff_registered [of sample_digest ?T]
  obtain out where out: "genSMBIOSTables_entries sample_digest ?T = Inr out"
    and d: "description_for 0 = Inr (Some ''BIOS Information'')"
      "description_for 4 = Inr (Some ''Processor Information'')"
      "description_for 17 = Inr (Some ''Memory Device'')"
      "description_for 127 = Inr (Some ''End-of-Table'')"
      "description_for 200 = Inr None"
    by blast
  from out have "out = projr (genSMBIOSTables_entries sample_digest ?T)" by simp
  then have o: "map (type_col \<circ> snd) out = [0, 4, 17, 200, 127]"
    "map (description_col \<circ> snd) out =
       [Some ''BIOS Information'', Some ''Processor Information'', Some ''Memory Device'',
        None, Some ''End-of-Table'']"
    by (simp_all only: typed_structures sum.sel) simp_all
  from o(2) have "map (Inr \<circ> description_col \<circ> snd) out =
      map Inr [Some ''BIOS Information'', Some ''Processor Information'', Some ''Memory Device'',
        None, Some ''End-of-Table'']"
    by (simp only: map_map [symmetric] comp_assoc)
  with out o d show ?thesis by simp
qed

text \<open>
  Claim C10 (\<open>size \<ge> header_size\<close>, unconditionally).  For every buffer and every
  emitted entry, \<open>size\<close> is at least \<open>header_size\<close>.  The scan never ends before the
  position it started at.  A header whose declared length fits in the buffer is never
  rejected, whatever that length is (also below 4): the loop emits an entry for it,
  with \<open>header_size\<close> the declared length and \<open>size\<close> at least that.
\<close>

theorem emitted_size_covers_header:
  "(\<exists>out. genSMBIOSTables_entries digest tables = Inr out \<and>
      (\<forall>(offset, r)\<in>set out. header_size_col r \<le> size_col r)) \<and>
   (\<exists>e. scan tables start = Inr e \<and> start \<le> e) \<and>
   (table + 4 \<le> length tables \<and> table + unat (tables ! (table + 1)) \<le> length tables \<longrightarrow>
      (\<exists>row more.
          genSMBIOSTables_loop digest tables table index results =
            Inr (results @ (table, row) # more) \<and>
          header_size_col row = uint (tables ! (table + 1)) \<and>
          header_size_col row \<le> size_col row))"
proof (intro conjI impI)
  show "\<exists>out. genSMBIOSTables_entries digest tables = Inr out \<and>
      (\<forall>(offset, r)\<in>set out. header_size_col r \<le> size_col r)"
  proof (rule entries_all)
    fix table index next_table
    assume "table + unat (tables ! (table + 1)) \<le> next_table"
    then have "int (table + unat (tables ! (table + 1))) \<le> int next_table"
      by linarith
    then have "uint (tables ! (table + 1)) \<le> int next_table - int table"
      by simp
    then show "case (table, row_at digest tables table index next_table) of
        (offset, r) \<Rightarrow> header_size_col r \<le> size_col r"
      by (simp add: row_at_def)
  qed
next
  from scan_total [of tables start]
  show "\<exists>e. scan tables start = Inr e \<and> start \<le> e" by blast
next
  assume a: "table + 4 \<le> length tables \<and> table + unat (tables ! (table + 1)) \<le> length tables"
  from scan_total [of tables "table + unat (tables ! (table + 1))"]
  obtain e where e: "scan tables (table + unat (tables ! (table + 1))) = Inr e"
    "table + unat (tables ! (table + 1)) \<le> e" by blast
  let ?row = "row_at digest tables table index e"
  from loop_returns [of digest tables e "index + 1" "results @ [(table, ?row)]"]
  obtain more where
    "genSMBIOSTables_loop digest tables e (index + 1) (results @ [(table, ?row)]) =
       Inr (results @ (table, ?row) # more)"
    by auto
  with a e have "genSMBIOSTables_loop digest tables table index results =
      Inr (results @ (table, ?row) # more)"
    by (simp add: genSMBIOSTables_loop_step)
  moreover from e(2) have "int (table + unat (tables ! (table + 1))) \<le> int e"
    by linarith
  then have "header_size_col ?row = uint (tables ! (table + 1))"
    "header_size_col ?row \<le> size_col ?row"
    by (simp_all add: row_at_def)
  ultimately show "\<exists>row more.
      genSMBIOSTables_loop digest tables table index results =
        Inr (results @ (table, row) # more) \<and>
      header_size_col row = uint (tables ! (table + 1)) \<and>
      header_size_col row \<le> size_col row"
    by blast
qed

theorem emitted_size_covers_header_witness:
  "(\<exists>out. genSMBIOSTables_entries sample_digest [1,3,9,9,0,0,5,5] = Inr out \<and>
      length out = 1 \<and> header_size_col (snd (out ! 0)) = 3 \<and> size_col (snd (out ! 0)) = 6) \<and>
   (\<exists>row more. genSMBIOSTables_loop sample_digest [1,3,9,9,0,0,5,5] 0 0 [] =
        Inr ((0, row) # more) \<and> header_size_col row = 3 \<and> 3 \<le> size_col row)"
  using emitted_size_covers_header [of sample_digest "[1,3,9,9,0,0,5,5]" 0 0 0 "[]"]
  by (simp add: eval_simps)

end
